theory Spec2Isabelle
  imports Complex_Main "HOL-Library.Word"
begin

unbundle bit_operations_syntax

section \<open>JavaScript values used by \<^verbatim>\<open>public/js/totp.js\<close>\<close>

text \<open>
  A JavaScript string is modelled as a \<^typ>\<open>string\<close>: each \<^typ>\<open>char\<close> stands for the
  code unit of the same number (U+0000 to U+00FF). A \<^verbatim>\<open>Uint8Array\<close> is a list
  of 8-bit words. Numbers that the module only uses as integers (lengths, indices,
  timestamps in milliseconds, periods, digit counts) are \<^typ>\<open>int\<close> or \<^typ>\<open>nat\<close>.
\<close>

type_synonym u8 = "8 word"
type_synonym u32 = "32 word"

subsection \<open>Number.prototype.toString and String.prototype.padStart\<close>

text \<open>The digit characters of \<^verbatim>\<open>toString\<close>, for a digit below the radix.\<close>

definition digitChar :: "nat \<Rightarrow> char" where
  "digitChar d = ''0123456789'' ! d"

text \<open>\<^verbatim>\<open>n.toString(2)\<close> for a non-negative integer \<open>n\<close>.\<close>

fun toString2 :: "nat \<Rightarrow> string" where
  "toString2 n = (if n < 2 then [digitChar n] else toString2 (n div 2) @ [digitChar (n mod 2)])"

text \<open>\<^verbatim>\<open>n.toString()\<close> for a non-negative integer \<open>n\<close>.\<close>

fun toString10 :: "nat \<Rightarrow> string" where
  "toString10 n = (if n < 10 then [digitChar n] else toString10 (n div 10) @ [digitChar (n mod 10)])"

declare toString2.simps [simp del]
declare toString10.simps [simp del]

text \<open>\<^verbatim>\<open>i.toString()\<close> for an integer \<open>i\<close>.\<close>

definition numberToString :: "int \<Rightarrow> string" where
  "numberToString i = (if i < 0 then CHR ''-'' # toString10 (nat (- i)) else toString10 (nat i))"

text \<open>\<^verbatim>\<open>s.padStart(n, c)\<close> for a one-character pad string \<open>c\<close>.\<close>

definition padStart :: "nat \<Rightarrow> char \<Rightarrow> string \<Rightarrow> string" where
  "padStart n c s = replicate (n - length s) c @ s"

text \<open>\<^verbatim>\<open>s.slice(i, j)\<close> for \<open>0 \<le> i \<le> j\<close>; both ends are clamped to the length.\<close>

definition slice :: "'a list \<Rightarrow> nat \<Rightarrow> nat \<Rightarrow> 'a list" where
  "slice s i j = take (j - i) (drop i s)"

subsection \<open>parseInt with radix 2\<close>

text \<open>
  \<^verbatim>\<open>parseInt(s, 2)\<close> reads the longest prefix of binary digits; with no such digit
  the result is \<^verbatim>\<open>NaN\<close>, here \<^const>\<open>None\<close>. (The leading whitespace and sign that
  \<^verbatim>\<open>parseInt\<close> also accepts do not occur: the module only parses strings it has
  built from the characters 0 and 1, see \<open>bitString_encodeBits\<close> and
  \<open>bitString_decodeBits\<close>.)
\<close>

definition isBit :: "char \<Rightarrow> bool" where
  "isBit c = (c = CHR ''0'' \<or> c = CHR ''1'')"

definition bitValue :: "char \<Rightarrow> nat" where
  "bitValue c = (if c = CHR ''1'' then 1 else 0)"

definition parseInt2 :: "string \<Rightarrow> nat option" where
  "parseInt2 s =
     (let ds = takeWhile isBit s
      in if ds = [] then None else Some (foldl (\<lambda>a c. 2 * a + bitValue c) 0 ds))"

subsection \<open>String.prototype.indexOf, toUpperCase and the whitespace class\<close>

text \<open>\<^verbatim>\<open>s.indexOf(c)\<close> for a single character: the first position, or -1.\<close>

fun indexOf :: "string \<Rightarrow> char \<Rightarrow> int" where
  "indexOf [] c = - 1"
| "indexOf (x # xs) c = (if x = c then 0 else (let i = indexOf xs c in if i = - 1 then - 1 else i + 1))"

text \<open>
  \<^verbatim>\<open>toUpperCase\<close> follows the Unicode upper-case mapping. On the code units of this
  model: a to z and the accented small letters U+00E0 to U+00FE (without the division
  sign U+00F7) move down by 32, and the sharp s U+00DF becomes the two letters SS.
  The micro sign U+00B5 and U+00FF have upper-case forms beyond U+00FF (U+039C and
  U+0178), which are neither whitespace nor Base32 letters, as the two characters
  themselves; they are left in place.
\<close>

definition upperChar :: "char \<Rightarrow> string" where
  "upperChar c =
     (let n = (of_char c :: nat)
      in if 97 \<le> n \<and> n \<le> 122 then [char_of (n - 32)]
         else if n = 223 then ''SS''
         else if 224 \<le> n \<and> n \<le> 254 \<and> n \<noteq> 247 then [char_of (n - 32)]
         else [c])"

definition toUpperCase :: "string \<Rightarrow> string" where
  "toUpperCase s = concat (map upperChar s)"

text \<open>The class \<^verbatim>\<open>\s\<close> of regular expressions, on the code units of this model.\<close>

definition isWhitespace :: "char \<Rightarrow> bool" where
  "isWhitespace c = (let n = (of_char c :: nat) in (9 \<le> n \<and> n \<le> 13) \<or> n = 32 \<or> n = 160)"

text \<open>\<^verbatim>\<open>s.replace(/\s/g, '')\<close>\<close>

definition stripWhitespace :: "string \<Rightarrow> string" where
  "stripWhitespace s = filter (\<lambda>c. \<not> isWhitespace c) s"

section \<open>The Base32 codec\<close>

definition alphabet :: string where
  "alphabet = ''ABCDEFGHIJKLMNOPQRSTUVWXYZ234567''"

text \<open>
  \<^verbatim>\<open>alphabet[v]\<close> appended to a string: a position outside the string, or
  \<^verbatim>\<open>NaN\<close>, reads \<^verbatim>\<open>undefined\<close>, which \<^verbatim>\<open>+=\<close> appends as the word "undefined".
\<close>

definition alphabetAt :: "nat option \<Rightarrow> string" where
  "alphabetAt v =
     (case v of
        None \<Rightarrow> ''undefined''
      | Some i \<Rightarrow> if i < length alphabet then [alphabet ! i] else ''undefined'')"

text \<open>The first loop of \<^verbatim>\<open>bytesToBase32\<close>: eight binary digits for each byte.\<close>

definition encodeBits :: "u8 list \<Rightarrow> string" where
  "encodeBits bytes =
     foldl (\<lambda>bits byte. bits @ padStart 8 (CHR ''0'') (toString2 (unat byte))) [] bytes"

text \<open>The \<^verbatim>\<open>while\<close> loop: zeros are appended until the length is a multiple of 5.\<close>

function padTo5 :: "string \<Rightarrow> string" where
  "padTo5 bits = (if length bits mod 5 \<noteq> 0 then padTo5 (bits @ ''0'') else bits)"
  by pat_completeness auto
termination
proof (relation "measure (\<lambda>bits. (5 - length bits mod 5) mod 5)")
  fix bits :: string
  assume h: "length bits mod 5 \<noteq> 0"
  have b: "length bits mod 5 < 5" by simp
  have "(5 - Suc (length bits) mod 5) mod 5 < (5 - length bits mod 5) mod 5"
    using h b by (simp add: mod_Suc) linarith
  then show "(bits @ ''0'', bits) \<in> measure (\<lambda>bits. (5 - length bits mod 5) mod 5)"
    by simp
qed simp

declare padTo5.simps [simp del]

text \<open>The last loop: one letter for each group of five binary digits.\<close>

function encodeLoop :: "string \<Rightarrow> nat \<Rightarrow> string \<Rightarrow> string" where
  "encodeLoop bits i base32 =
     (if i < length bits
      then encodeLoop bits (i + 5) (base32 @ alphabetAt (parseInt2 (slice bits i (i + 5))))
      else base32)"
  by pat_completeness auto
termination
  by (relation "measure (\<lambda>(bits, i, base32). length bits - i)") auto

declare encodeLoop.simps [simp del]

definition bytesToBase32 :: "u8 list \<Rightarrow> string" where
  "bytesToBase32 bytes = encodeLoop (padTo5 (encodeBits bytes)) 0 []"

text \<open>
  The first loop of \<^verbatim>\<open>base32ToBytes\<close>, over the upper-cased string without its
  whitespace: five binary digits for each letter of the alphabet, nothing for any
  other character.
\<close>

definition decodeBits :: "string \<Rightarrow> string" where
  "decodeBits s =
     foldl (\<lambda>bits char.
              (let idx = indexOf alphabet char
               in if idx = - 1 then bits
                  else bits @ padStart 5 (CHR ''0'') (toString2 (nat idx))))
       [] s"

text \<open>
  A store into a \<^verbatim>\<open>Uint8Array\<close> keeps the number modulo 256, and keeps 0 for
  \<^verbatim>\<open>NaN\<close>.
\<close>

definition toUint8 :: "nat option \<Rightarrow> u8" where
  "toUint8 v = (case v of None \<Rightarrow> 0 | Some n \<Rightarrow> of_nat n)"

function decodeLoop :: "string \<Rightarrow> nat \<Rightarrow> u8 list \<Rightarrow> u8 list" where
  "decodeLoop bits i bytes =
     (if i < length bytes
      then decodeLoop bits (i + 1) (bytes[i := toUint8 (parseInt2 (slice bits (i * 8) ((i + 1) * 8)))])
      else bytes)"
  by pat_completeness auto
termination
  by (relation "measure (\<lambda>(bits, i, bytes). length bytes - i)") auto

declare decodeLoop.simps [simp del]

definition base32ToBytes :: "string \<Rightarrow> u8 list" where
  "base32ToBytes base32 =
     (let bits = decodeBits (stripWhitespace (toUpperCase base32))
      in decodeLoop bits 0 (replicate (length bits div 8) 0))"

section \<open>The random secret source\<close>

text \<open>
  The errors the module can end with. None is raised by the module itself: they come
  from the typed-array constructor (\<^verbatim>\<open>RangeError\<close>), from
  \<^verbatim>\<open>crypto.getRandomValues\<close> (\<^verbatim>\<open>QuotaExceededError\<close>, for more than 65536 bytes) and
  from \<^verbatim>\<open>crypto.subtle.importKey\<close> (\<^verbatim>\<open>DataError\<close>, for an empty HMAC key).
\<close>

datatype error = RangeError | QuotaExceededError | DataError

text \<open>
  The platform's entropy source is the state: the sequence of the bytes it will
  deliver next. \<^verbatim>\<open>generateSecretBytes\<close> returns its result together with the source
  as it is left. \<^verbatim>\<open>new Uint8Array(length)\<close> raises for a negative length, before the
  source is touched, and gives the empty array for length 0. (A length beyond the
  largest typed array fails in the constructor already; the model reports every length
  above 65536 with the error of \<^verbatim>\<open>getRandomValues\<close>.)
\<close>

type_synonym entropy = "nat \<Rightarrow> u8"

definition getRandomValues :: "nat \<Rightarrow> entropy \<Rightarrow> (error + u8 list) \<times> entropy" where
  "getRandomValues n src =
     (if n > 65536 then (Inl QuotaExceededError, src)
      else (Inr (map src [0..<n]), (\<lambda>i. src (i + n))))"

definition generateSecretBytes :: "int \<Rightarrow> entropy \<Rightarrow> (error + u8 list) \<times> entropy" where
  "generateSecretBytes len src =
     (if len < 0 then (Inl RangeError, src) else getRandomValues (nat len) src)"

definition generateSecret :: "entropy \<Rightarrow> (error + string) \<times> entropy" where
  "generateSecret src =
     (case generateSecretBytes 20 src of
        (Inl e, src') \<Rightarrow> (Inl e, src')
      | (Inr bytes, src') \<Rightarrow> (Inr (bytesToBase32 bytes), src'))"

section \<open>The keyed hash of the platform\<close>

text \<open>
  \<^verbatim>\<open>crypto.subtle\<close> belongs to the platform, not to the module. Its HMAC with SHA-1 is
  fixed by FIPS 180-4 and RFC 2104, which the definitions of this section follow.
  A 32-bit word is an \<^typ>\<open>int\<close> below \<open>2 ^ 32\<close>, with the wrap-around written out;
  a byte of a message is an \<^typ>\<open>int\<close> below 256.
\<close>

type_synonym sha1State = "int \<times> int \<times> int \<times> int \<times> int"

definition add32 :: "int \<Rightarrow> int \<Rightarrow> int" where
  "add32 x y = (x + y) mod 4294967296"

definition rotl32 :: "nat \<Rightarrow> int \<Rightarrow> int" where
  "rotl32 n x = (x * 2 ^ n) mod 4294967296 + x div 2 ^ (32 - n)"

definition not32 :: "int \<Rightarrow> int" where
  "not32 x = 4294967295 - x"

definition be32 :: "int list \<Rightarrow> int" where
  "be32 bs = foldl (\<lambda>a b. 256 * a + b) 0 bs"

definition bytesOf32 :: "int \<Rightarrow> int list" where
  "bytesOf32 w = [w div 16777216 mod 256, w div 65536 mod 256, w div 256 mod 256, w mod 256]"

definition bytesOf64 :: "int \<Rightarrow> int list" where
  "bytesOf64 n = bytesOf32 (n div 4294967296 mod 4294967296) @ bytesOf32 (n mod 4294967296)"

text \<open>
  Padding: the byte 0x80, zero bytes up to 56 modulo 64, and the length of the message
  in bits as a 64-bit big-endian number.
\<close>

definition sha1Pad :: "int list \<Rightarrow> int list" where
  "sha1Pad msg =
     msg @ [0x80] @ replicate ((119 - length msg mod 64) mod 64) 0 @ bytesOf64 (8 * int (length msg))"

fun chunks :: "nat \<Rightarrow> 'a list \<Rightarrow> 'a list list" where
  "chunks n xs = (if n = 0 \<or> xs = [] then [] else take n xs # chunks n (drop n xs))"

declare chunks.simps [simp del]

text \<open>
  The message schedule, built with the latest word first: \<open>schedule 64\<close> extends the
  16 words of a block to the 80 words of the rounds.
\<close>

fun schedule :: "nat \<Rightarrow> int list \<Rightarrow> int list" where
  "schedule n w =
     (if n = 0 then w
      else schedule (n - 1) (rotl32 1 (w ! 2 XOR w ! 7 XOR w ! 13 XOR w ! 15) # w))"

declare schedule.simps [simp del]

definition sha1F :: "nat \<Rightarrow> int \<Rightarrow> int \<Rightarrow> int \<Rightarrow> int" where
  "sha1F t b c d =
     (if t < 20 then (b AND c) OR (not32 b AND d)
      else if t < 40 then b XOR c XOR d
      else if t < 60 then (b AND c) OR (b AND d) OR (c AND d)
      else b XOR c XOR d)"

definition sha1K :: "nat \<Rightarrow> int" where
  "sha1K t =
     (if t < 20 then 0x5A827999 else if t < 40 then 0x6ED9EBA1
      else if t < 60 then 0x8F1BBCDC else 0xCA62C1D6)"

fun sha1Round :: "nat \<Rightarrow> int \<Rightarrow> sha1State \<Rightarrow> sha1State" where
  "sha1Round t wt (a, b, c, d, e) =
     (add32 (add32 (add32 (add32 (rotl32 5 a) (sha1F t b c d)) e) (sha1K t)) wt,
      a, rotl32 30 b, c, d)"

fun rounds :: "nat \<Rightarrow> int list \<Rightarrow> sha1State \<Rightarrow> sha1State" where
  "rounds t [] s = s"
| "rounds t (wt # ws) s = rounds (t + 1) ws (sha1Round t wt s)"

fun addState :: "sha1State \<Rightarrow> sha1State \<Rightarrow> sha1State" where
  "addState (h0, h1, h2, h3, h4) (a, b, c, d, e) =
     (add32 h0 a, add32 h1 b, add32 h2 c, add32 h3 d, add32 h4 e)"

definition compress :: "sha1State \<Rightarrow> int list \<Rightarrow> sha1State" where
  "compress h block =
     addState h (rounds 0 (rev (schedule 64 (rev (map be32 (chunks 4 block))))) h)"

fun digestBytes :: "sha1State \<Rightarrow> int list" where
  "digestBytes (h0, h1, h2, h3, h4) =
     bytesOf32 h0 @ bytesOf32 h1 @ bytesOf32 h2 @ bytesOf32 h3 @ bytesOf32 h4"

definition sha1 :: "int list \<Rightarrow> int list" where
  "sha1 msg =
     digestBytes
       (foldl compress (0x67452301, 0xEFCDAB89, 0x98BADCFE, 0x10325476, 0xC3D2E1F0)
          (chunks 64 (sha1Pad msg)))"

text \<open>
  RFC 2104 with the 64-byte block of SHA-1: a key longer than a block is hashed first,
  then the key is filled with zero bytes to a block.
\<close>

definition hmacSha1 :: "int list \<Rightarrow> int list \<Rightarrow> int list" where
  "hmacSha1 key msg =
     (let k0 = (if length key > 64 then sha1 key else key);
          k = k0 @ replicate (64 - length k0) 0
      in sha1 (map (\<lambda>b. b XOR 0x5C) k @ sha1 (map (\<lambda>b. b XOR 0x36) k @ msg)))"

text \<open>
  \<^verbatim>\<open>crypto.subtle.importKey('raw', keyData, {name: 'HMAC', hash: 'SHA-1'}, false, ['sign'])\<close>
  rejects with \<^verbatim>\<open>DataError\<close> when the key has no byte, and accepts any other key.
  \<^verbatim>\<open>crypto.subtle.sign('HMAC', key, data)\<close> then returns the 20 bytes of the HMAC.
\<close>

definition importKey :: "u8 list \<Rightarrow> error + u8 list" where
  "importKey keyData = (if keyData = [] then Inl DataError else Inr keyData)"

definition sign :: "u8 list \<Rightarrow> u8 list \<Rightarrow> u8 list" where
  "sign key data = map word_of_int (hmacSha1 (map uint key) (map uint data))"

section \<open>The OTP engine\<close>

text \<open>
  \<^verbatim>\<open>Math.floor(time / 1000 / period)\<close>, in exact arithmetic. A period of 0 gives
  \<^verbatim>\<open>Infinity\<close>, \<^verbatim>\<open>-Infinity\<close> or \<^verbatim>\<open>NaN\<close>, here \<^const>\<open>None\<close>.
\<close>

definition counter :: "int \<Rightarrow> int \<Rightarrow> int option" where
  "counter time period =
     (if period = 0 then None else Some \<lfloor>(of_int time :: rat) / 1000 / of_int period\<rfloor>)"

text \<open>
  \<^verbatim>\<open>DataView.prototype.setUint32(offset, value, false)\<close>: the value is taken modulo
  \<open>2 ^ 32\<close> (0 for a value that is not finite) and stored in four bytes, the most
  significant first.
\<close>

definition toUint32 :: "int option \<Rightarrow> u32" where
  "toUint32 v = (case v of None \<Rightarrow> 0 | Some i \<Rightarrow> word_of_int i)"

definition setUint32 :: "u8 list \<Rightarrow> nat \<Rightarrow> int option \<Rightarrow> u8 list" where
  "setUint32 buffer offset v =
     (let w = toUint32 v
      in buffer[offset := ucast (drop_bit 24 w), offset + 1 := ucast (drop_bit 16 w),
                offset + 2 := ucast (drop_bit 8 w), offset + 3 := ucast w])"

definition counterBuffer :: "int \<Rightarrow> int \<Rightarrow> u8 list" where
  "counterBuffer time period = setUint32 (replicate 8 0) 4 (counter time period)"

text \<open>
  \<^verbatim>\<open>hmac[i] & mask\<close>: a 32-bit integer. Outside the array the read gives
  \<^verbatim>\<open>undefined\<close>, which \<^verbatim>\<open>&\<close> takes as 0.
\<close>

definition byteAnd :: "u8 list \<Rightarrow> int \<Rightarrow> u32 \<Rightarrow> u32" where
  "byteAnd hmac i m = (if 0 \<le> i \<and> i < int (length hmac) then ucast (hmac ! nat i) AND m else 0)"

text \<open>
  Dynamic truncation (RFC 4226). The shifts and \<^verbatim>\<open>|\<close> work on 32-bit integers and
  the result is read as a signed one.
\<close>

definition dynamicTruncate :: "u8 list \<Rightarrow> int" where
  "dynamicTruncate hmac =
     (let offset = uint (byteAnd hmac (int (length hmac) - 1) 0x0f)
      in sint (push_bit 24 (byteAnd hmac offset 0x7f)
               OR push_bit 16 (byteAnd hmac (offset + 1) 0xff)
               OR push_bit 8 (byteAnd hmac (offset + 2) 0xff)
               OR byteAnd hmac (offset + 3) 0xff))"

text \<open>
  The remainder operator \<^verbatim>\<open>%\<close> on integers, for a divisor other than 0: the result
  has the sign of the dividend.
\<close>

definition jsRem :: "int \<Rightarrow> int \<Rightarrow> int" where
  "jsRem a b = sgn a * (\<bar>a\<bar> mod \<bar>b\<bar>)"

text \<open>
  \<^verbatim>\<open>generateCode(secret, time, period, digits)\<close>, with \<open>time\<close> in milliseconds. The
  promise it returns is rejected with the error of \<^verbatim>\<open>importKey\<close> or fulfilled with the
  code. \<^verbatim>\<open>Math.pow(10, digits)\<close> is never 0.
\<close>

definition generateCode :: "string \<Rightarrow> int \<Rightarrow> int \<Rightarrow> nat \<Rightarrow> error + string" where
  "generateCode secret time period digits =
     (let secretBytes = base32ToBytes secret;
          buffer = counterBuffer time period
      in case importKey secretBytes of
           Inl e \<Rightarrow> Inl e
         | Inr key \<Rightarrow>
             (let hmac = sign key buffer;
                  binary = dynamicTruncate hmac;
                  otp = jsRem binary (10 ^ digits)
              in Inr (padStart digits (CHR ''0'') (numberToString otp))))"

text \<open>
  \<^verbatim>\<open>getRemainingSeconds(period)\<close> when \<^verbatim>\<open>Date.now()\<close> returns \<open>now\<close> (milliseconds).
  With a period of 0 the remainder, and so the result, is \<^verbatim>\<open>NaN\<close>, here \<^const>\<open>None\<close>.
\<close>

definition getRemainingSeconds :: "int \<Rightarrow> int \<Rightarrow> int option" where
  "getRemainingSeconds now period =
     (if period = 0 then None else Some (period - jsRem (now div 1000) period))"

section \<open>The provisioning URI\<close>

text \<open>
  The UTF-8 bytes of a code unit of this model, written as percent escapes with
  upper-case hexadecimal digits. (A lone surrogate, for which
  \<^verbatim>\<open>encodeURIComponent\<close> raises \<^verbatim>\<open>URIError\<close>, is not a string of this model.)
\<close>

definition hexDigit :: "nat \<Rightarrow> char" where
  "hexDigit d = ''0123456789ABCDEF'' ! d"

definition percentByte :: "nat \<Rightarrow> string" where
  "percentByte b = [CHR ''%'', hexDigit (b div 16), hexDigit (b mod 16)]"

definition utf8 :: "char \<Rightarrow> nat list" where
  "utf8 c = (let n = (of_char c :: nat) in if n < 128 then [n] else [192 + n div 64, 128 + n mod 64])"

definition percentEncode :: "char \<Rightarrow> string" where
  "percentEncode c = concat (map percentByte (utf8 c))"

definition isAlphaNum :: "char \<Rightarrow> bool" where
  "isAlphaNum c =
     (let n = (of_char c :: nat)
      in (48 \<le> n \<and> n \<le> 57) \<or> (65 \<le> n \<and> n \<le> 90) \<or> (97 \<le> n \<and> n \<le> 122))"

text \<open>\<^verbatim>\<open>encodeURIComponent\<close> keeps letters, digits and \<^verbatim>\<open>- _ . ! ~ * ' ( )\<close>.\<close>

definition uriUnreserved :: "char \<Rightarrow> bool" where
  "uriUnreserved c = (isAlphaNum c \<or> c \<in> set ''-_.!~*'' \<or> c = CHR 0x27 \<or> c \<in> set ''()'')"

definition encodeURIComponent :: "string \<Rightarrow> string" where
  "encodeURIComponent s = concat (map (\<lambda>c. if uriUnreserved c then [c] else percentEncode c) s)"

text \<open>
  \<^verbatim>\<open>URLSearchParams.prototype.toString\<close>: the form-urlencoded serialisation keeps
  letters, digits and \<^verbatim>\<open>* - . _\<close>, writes a space as \<^verbatim>\<open>+\<close>, escapes the rest, and joins
  the \<^verbatim>\<open>name=value\<close> pairs with \<^verbatim>\<open>&\<close> in the order of insertion.
\<close>

definition formEncode :: "string \<Rightarrow> string" where
  "formEncode s =
     concat (map (\<lambda>c. if isAlphaNum c \<or> c \<in> set ''*-._'' then [c]
                       else if c = CHR '' '' then ''+''
                       else percentEncode c) s)"

fun joinAmp :: "string list \<Rightarrow> string" where
  "joinAmp [] = []"
| "joinAmp [x] = x"
| "joinAmp (x # y # ys) = x @ ''&'' @ joinAmp (y # ys)"

definition searchParamsToString :: "(string \<times> string) list \<Rightarrow> string" where
  "searchParamsToString params = joinAmp (map (\<lambda>(k, v). formEncode k @ ''='' @ formEncode v) params)"

text \<open>
  The argument of \<^verbatim>\<open>buildURI\<close>. The three fields with a default are optional.
\<close>

record provisioning =
  secret :: string
  issuer :: string
  account :: string
  digits :: "int option"
  period :: "int option"
  algorithm :: "string option"

definition uriLabel :: "provisioning \<Rightarrow> string" where
  "uriLabel r =
     (if issuer r \<noteq> [] then encodeURIComponent (issuer r) @ '':'' @ encodeURIComponent (account r)
      else encodeURIComponent (account r))"

definition uriParams :: "provisioning \<Rightarrow> (string \<times> string) list" where
  "uriParams r =
     [(''secret'', secret r),
      (''issuer'', issuer r),
      (''algorithm'', case algorithm r of None \<Rightarrow> ''SHA1'' | Some a \<Rightarrow> a),
      (''digits'', numberToString (case digits r of None \<Rightarrow> 6 | Some d \<Rightarrow> d)),
      (''period'', numberToString (case period r of None \<Rightarrow> 30 | Some p \<Rightarrow> p))]"

definition buildURI :: "provisioning \<Rightarrow> string" where
  "buildURI r = ''otpauth://totp/'' @ uriLabel r @ ''?'' @ searchParamsToString (uriParams r)"

section \<open>Notions used in the proofs\<close>

text \<open>The number that a string of binary digits denotes.\<close>

definition bitsValue :: "string \<Rightarrow> nat" where
  "bitsValue s = foldl (\<lambda>a c. 2 * a + bitValue c) 0 s"

text \<open>What one character adds to the bit string in the first loop of \<^verbatim>\<open>base32ToBytes\<close>.\<close>

definition letterBits :: "char \<Rightarrow> string" where
  "letterBits c =
     (if indexOf alphabet c = - 1 then []
      else padStart 5 (CHR ''0'') (toString2 (nat (indexOf alphabet c))))"

section \<open>Properties of the Base32 codec\<close>

subsection \<open>Binary digits\<close>

lemma bitsValue_Nil [simp]: "bitsValue [] = 0"
  by (simp add: bitsValue_def)

lemma bitsValue_snoc [simp]: "bitsValue (s @ [c]) = 2 * bitsValue s + bitValue c"
  by (simp add: bitsValue_def)

lemma bitValue_digitChar: "d < 2 \<Longrightarrow> bitValue (digitChar d) = d"
  by (cases d) (auto simp: bitValue_def digitChar_def)

lemma isBit_digitChar: "d < 2 \<Longrightarrow> isBit (digitChar d)"
  by (cases d) (auto simp: isBit_def digitChar_def)

lemma bitsValue_bound: "list_all isBit s \<Longrightarrow> bitsValue s < 2 ^ length s"
proof (induction s rule: rev_induct)
  case Nil
  then show ?case by simp
next
  case (snoc c s)
  then have "bitsValue s < 2 ^ length s" by simp
  moreover have "bitValue c \<le> 1" by (simp add: bitValue_def)
  ultimately show ?case by simp
qed

lemma bitsValue_zeros: "bitsValue (replicate n (CHR ''0'') @ s) = bitsValue s"
proof (induction s rule: rev_induct)
  case Nil
  have "bitsValue (replicate n (CHR ''0'')) = 0"
  proof (induction n)
    case 0
    show ?case by simp
  next
    case (Suc n)
    have "bitsValue (replicate (Suc n) (CHR ''0'')) = bitsValue (replicate n (CHR ''0'') @ ''0'')"
      by (simp add: replicate_append_same)
    also have "\<dots> = 0"
      using Suc by (simp only: bitsValue_snoc) (simp add: bitValue_def)
    finally show ?case .
  qed
  then show ?case by simp
next
  case (snoc c s)
  then show ?case by (simp flip: append_assoc)
qed

lemma toString2_bits: "list_all isBit (toString2 n)"
  by (induction n rule: toString2.induct) (subst toString2.simps, simp add: isBit_digitChar)

lemma toString2_value: "bitsValue (toString2 n) = n"
proof (induction n rule: toString2.induct)
  case (1 n)
  show ?case
  proof (cases "n < 2")
    case True
    then show ?thesis
      by (subst toString2.simps) (simp add: bitsValue_def bitValue_digitChar)
  next
    case False
    with 1 have "bitsValue (toString2 (n div 2)) = n div 2" by simp
    with False show ?thesis
      by (subst toString2.simps) (simp add: bitValue_digitChar)
  qed
qed

lemma toString2_length: "n < 2 ^ k \<Longrightarrow> 0 < k \<Longrightarrow> length (toString2 n) \<le> k"
proof (induction n arbitrary: k rule: toString2.induct)
  case (1 n)
  show ?case
  proof (cases "n < 2")
    case True
    with 1 show ?thesis by (subst toString2.simps) simp
  next
    case False
    obtain j where k: "k = Suc j" using 1(3) by (cases k) auto
    from False 1(2) k have "0 < j" by (cases j) auto
    moreover from 1(2) k have "n div 2 < 2 ^ j" by simp
    ultimately have "length (toString2 (n div 2)) \<le> j" using 1(1) False by simp
    with False k show ?thesis by (subst toString2.simps) simp
  qed
qed

lemma bitString_inj:
  "length s = length s' \<Longrightarrow> list_all isBit s \<Longrightarrow> list_all isBit s' \<Longrightarrow> bitsValue s = bitsValue s' \<Longrightarrow> s = s'"
proof (induction s arbitrary: s' rule: rev_induct)
  case Nil
  then show ?case by simp
next
  case (snoc c s)
  then obtain c' t where s': "s' = t @ [c']"
    by (cases s' rule: rev_cases) auto
  from snoc.prems s' have eq: "2 * bitsValue s + bitValue c = 2 * bitsValue t + bitValue c'"
    by simp
  have b: "bitValue c \<le> 1" "bitValue c' \<le> 1" by (simp_all add: bitValue_def)
  from eq b have v: "bitsValue s = bitsValue t" and bc: "bitValue c = bitValue c'" by presburger+
  from snoc.prems s' have "isBit c" "isBit c'" by simp_all
  with bc have "c = c'" by (auto simp: isBit_def bitValue_def split: if_splits)
  moreover from snoc.IH [of t] snoc.prems s' v have "s = t" by simp
  ultimately show ?case using s' by simp
qed

lemma padStart_length: "length s \<le> n \<Longrightarrow> length (padStart n c s) = n"
  by (simp add: padStart_def)

lemma fixedWidth_length: "v < 2 ^ k \<Longrightarrow> 0 < k \<Longrightarrow> length (padStart k (CHR ''0'') (toString2 v)) = k"
  by (simp add: padStart_length toString2_length)

lemma fixedWidth_bits: "list_all isBit (padStart k (CHR ''0'') (toString2 v))"
proof -
  have "list_all isBit (replicate n (CHR ''0''))" for n
    by (induction n) (simp_all add: isBit_def)
  then show ?thesis
    by (simp add: padStart_def toString2_bits)
qed

lemma fixedWidth_value: "bitsValue (padStart k (CHR ''0'') (toString2 v)) = v"
  by (simp add: padStart_def bitsValue_zeros toString2_value)

lemma fixedWidth_inverse:
  assumes "list_all isBit s" "s \<noteq> []"
  shows "padStart (length s) (CHR ''0'') (toString2 (bitsValue s)) = s"
proof (rule bitString_inj)
  have "bitsValue s < 2 ^ length s" using assms(1) by (rule bitsValue_bound)
  moreover have "0 < length s" using assms(2) by simp
  ultimately show "length (padStart (length s) (CHR ''0'') (toString2 (bitsValue s))) = length s"
    by (rule fixedWidth_length)
qed (simp_all add: fixedWidth_bits fixedWidth_value assms)

lemma parseInt2_bits: "list_all isBit s \<Longrightarrow> s \<noteq> [] \<Longrightarrow> parseInt2 s = Some (bitsValue s)"
  by (simp add: parseInt2_def bitsValue_def list_all_iff takeWhile_eq_all_conv [THEN iffD2])


subsection \<open>The loops of the encoder\<close>

lemma foldl_append_concat: "foldl (\<lambda>acc x. acc @ f x) a xs = a @ concat (map f xs)"
  by (induction xs arbitrary: a) simp_all

lemma encodeBits_concat:
  "encodeBits bytes = concat (map (\<lambda>b. padStart 8 (CHR ''0'') (toString2 (unat b))) bytes)"
  by (simp add: encodeBits_def foldl_append_concat)

lemma byteBits_length: "length (padStart 8 (CHR ''0'') (toString2 (unat (b :: u8)))) = 8"
proof -
  have "unat b < 2 ^ 8" using unsigned_less [of b] by simp
  then show ?thesis by (rule fixedWidth_length) simp
qed

lemma length_concat_uniform: "\<forall>x\<in>set xss. length x = m \<Longrightarrow> length (concat xss) = m * length xss"
  by (induction xss) simp_all

lemma encodeBits_length: "length (encodeBits bytes) = 8 * length bytes"
  by (simp add: encodeBits_concat length_concat_uniform [where m = 8] byteBits_length)

lemma encodeBits_bits: "list_all isBit (encodeBits bytes)"
  using fixedWidth_bits by (auto simp: encodeBits_concat list_all_iff)

lemma padTo5_eq: "padTo5 bits = bits @ replicate ((5 - length bits mod 5) mod 5) (CHR ''0'')"
proof (induction bits rule: padTo5.induct)
  case (1 bits)
  show ?case
  proof (cases "length bits mod 5 = 0")
    case True
    then show ?thesis by (subst padTo5.simps) simp
  next
    case False
    have b: "length bits mod 5 < 5" by simp
    from False b have "(5 - length bits mod 5) mod 5 = Suc ((5 - Suc (length bits) mod 5) mod 5)"
      by (simp add: mod_Suc) linarith
    with 1 False show ?thesis
      by (subst padTo5.simps) (simp add: replicate_app_Cons_same)
  qed
qed

lemma padTo5_length_mod: "length (padTo5 bits) mod 5 = 0"
proof -
  define n where "n = length bits"
  define r where "r = n mod 5"
  have r: "r < 5" by (simp add: r_def)
  have "(r + (5 - r) mod 5) mod 5 = 0"
  proof (cases "r = 0")
    case True
    then show ?thesis by simp
  next
    case False
    with r have "(5 - r) mod 5 = 5 - r" by simp
    with r show ?thesis by simp
  qed
  moreover have "(n + (5 - r) mod 5) mod 5 = (r + (5 - r) mod 5) mod 5"
    unfolding r_def by (rule mod_add_left_eq [symmetric])
  ultimately have "(n + (5 - n mod 5) mod 5) mod 5 = 0"
    by (simp add: r_def)
  then show ?thesis by (simp add: padTo5_eq n_def)
qed

lemma padTo5_bits: "list_all isBit bits \<Longrightarrow> list_all isBit (padTo5 bits)"
proof -
  have "list_all isBit (replicate n (CHR ''0''))" for n
    by (induction n) (simp_all add: isBit_def)
  then show "list_all isBit bits \<Longrightarrow> list_all isBit (padTo5 bits)"
    by (simp add: padTo5_eq)
qed

lemma encodeLoop_chunks:
  "encodeLoop bits i base32 = base32 @ concat (map (\<lambda>ch. alphabetAt (parseInt2 ch)) (chunks 5 (drop i bits)))"
proof (induction bits i base32 rule: encodeLoop.induct)
  case (1 bits i base32)
  show ?case
  proof (cases "i < length bits")
    case True
    then have "drop i bits \<noteq> []" by simp
    moreover have "drop 5 (drop i bits) = drop (i + 5) bits" by (simp add: add.commute)
    moreover have "slice bits i (i + 5) = take 5 (drop i bits)" by (simp add: slice_def)
    ultimately show ?thesis using 1 True
      by (subst encodeLoop.simps, subst chunks.simps) simp
  next
    case False
    then show ?thesis by (subst encodeLoop.simps, subst chunks.simps) simp
  qed
qed

lemma bytesToBase32_chunks:
  "bytesToBase32 bytes = concat (map (\<lambda>ch. alphabetAt (parseInt2 ch)) (chunks 5 (padTo5 (encodeBits bytes))))"
  by (simp add: bytesToBase32_def encodeLoop_chunks)

lemma concat_chunks: "0 < n \<Longrightarrow> concat (chunks n xs) = xs"
proof (induction n xs rule: chunks.induct)
  case (1 n xs)
  show ?case
  proof (cases "xs = []")
    case True
    then show ?thesis by (subst chunks.simps) simp
  next
    case False
    with 1 have "concat (chunks n (drop n xs)) = drop n xs" by simp
    with False 1(2) show ?thesis by (subst chunks.simps) simp
  qed
qed

lemma chunks_uniform:
  "0 < n \<Longrightarrow> length xs mod n = 0 \<Longrightarrow> list_all (\<lambda>ch. length ch = n) (chunks n xs)"
proof (induction n xs rule: chunks.induct)
  case (1 n xs)
  show ?case
  proof (cases "xs = []")
    case True
    then show ?thesis by (subst chunks.simps) simp
  next
    case False
    from 1(3) False 1(2) have le: "n \<le> length xs"
      by (metis length_greater_0_conv mod_less not_le_imp_less less_irrefl)
    then have "(length xs - n) mod n = 0" using 1(3) by (simp add: le_mod_geq)
    with 1 False have "list_all (\<lambda>ch. length ch = n) (chunks n (drop n xs))" by simp
    moreover have "length (take n xs) = n" using le by simp
    moreover have "chunks n xs = take n xs # chunks n (drop n xs)"
      using False 1(2) by (subst chunks.simps) simp
    ultimately show ?thesis by simp
  qed
qed

lemma length_chunks:
  "0 < n \<Longrightarrow> length xs mod n = 0 \<Longrightarrow> length (chunks n xs) = length xs div n"
proof (induction n xs rule: chunks.induct)
  case (1 n xs)
  show ?case
  proof (cases "xs = []")
    case True
    then show ?thesis by (subst chunks.simps) simp
  next
    case False
    from 1(3) False 1(2) have le: "n \<le> length xs"
      by (metis length_greater_0_conv mod_less not_le_imp_less less_irrefl)
    then have m: "(length xs - n) mod n = 0" using 1(3) by (simp add: le_mod_geq)
    with 1 False have "length (chunks n (drop n xs)) = (length xs - n) div n" by simp
    moreover from le 1(2) have "length xs div n = Suc ((length xs - n) div n)"
      by (simp add: le_div_geq)
    ultimately show ?thesis using False 1(2) by (subst chunks.simps) simp
  qed
qed

lemma chunks_bits: "list_all isBit xs \<Longrightarrow> list_all (list_all isBit) (chunks n xs)"
proof (induction n xs rule: chunks.induct)
  case (1 n xs)
  show ?case
  proof (cases "n = 0 \<or> xs = []")
    case True
    then show ?thesis by (subst chunks.simps) simp
  next
    case False
    from 1(2) have "list_all isBit (take n xs)" "list_all isBit (drop n xs)"
      by (auto simp: list_all_iff dest: in_set_takeD in_set_dropD)
    moreover have "chunks n xs = take n xs # chunks n (drop n xs)"
      using False by (subst chunks.simps) simp
    ultimately show ?thesis using 1(1) False by simp
  qed
qed

lemma indexOf_lower: "- 1 \<le> indexOf xs c"
  by (induction xs) (simp_all add: Let_def)

lemma indexOf_absent: "indexOf xs c = - 1 \<longleftrightarrow> c \<notin> set xs"
proof (induction xs)
  case Nil
  show ?case by simp
next
  case (Cons x xs)
  have "- 1 \<le> indexOf xs c" by (rule indexOf_lower)
  then have "indexOf xs c + 1 \<noteq> - 1" by simp
  with Cons show ?case by (simp add: Let_def)
qed

lemma indexOf_range: "c \<in> set xs \<Longrightarrow> 0 \<le> indexOf xs c \<and> indexOf xs c < int (length xs)"
proof (induction xs)
  case Nil
  then show ?case by simp
next
  case (Cons x xs)
  show ?case
  proof (cases "x = c")
    case True
    then show ?thesis by simp
  next
    case False
    with Cons.prems have "c \<in> set xs" by simp
    with Cons.IH have "0 \<le> indexOf xs c \<and> indexOf xs c < int (length xs)" by simp
    with False show ?thesis by (simp add: Let_def)
  qed
qed

lemma indexOf_nth: "distinct xs \<Longrightarrow> i < length xs \<Longrightarrow> indexOf xs (xs ! i) = int i"
proof (induction xs arbitrary: i)
  case Nil
  then show ?case by simp
next
  case (Cons x xs)
  show ?case
  proof (cases i)
    case 0
    then show ?thesis by simp
  next
    case (Suc j)
    with Cons.prems have j: "j < length xs" and d: "distinct xs" and nx: "x \<notin> set xs" by simp_all
    from j nx have "xs ! j \<noteq> x" by (metis nth_mem)
    moreover from Cons.IH [OF d j] have "indexOf xs (xs ! j) = int j" .
    ultimately show ?thesis using Suc by (simp add: Let_def)
  qed
qed

lemma length_alphabet: "length alphabet = 32"
  by (simp add: alphabet_def)

lemma distinct_alphabet: "distinct alphabet"
  by (simp add: alphabet_def)

lemma upperChar_alphabet: "c \<in> set alphabet \<Longrightarrow> upperChar c = [c]"
  by (auto simp: alphabet_def upperChar_def)

lemma isWhitespace_alphabet: "c \<in> set alphabet \<Longrightarrow> \<not> isWhitespace c"
  by (auto simp: alphabet_def isWhitespace_def)

lemma toUpperCase_alphabet: "set s \<subseteq> set alphabet \<Longrightarrow> toUpperCase s = s"
  by (induction s) (simp_all add: toUpperCase_def upperChar_alphabet)

lemma stripWhitespace_alphabet: "set s \<subseteq> set alphabet \<Longrightarrow> stripWhitespace s = s"
  by (induction s) (simp_all add: stripWhitespace_def isWhitespace_alphabet)

lemma alphabetAt_chunk:
  assumes "list_all isBit ch" "length ch = 5"
  shows "alphabetAt (parseInt2 ch) = [alphabet ! bitsValue ch]" and "bitsValue ch < 32"
proof -
  from assms have ne: "ch \<noteq> []" by auto
  from bitsValue_bound [OF assms(1)] assms(2) show b: "bitsValue ch < 32" by simp
  with ne assms(1) show "alphabetAt (parseInt2 ch) = [alphabet ! bitsValue ch]"
    by (simp add: parseInt2_bits alphabetAt_def length_alphabet)
qed

lemma concat_map_singleton: "list_all (\<lambda>x. f x = [g x]) xs \<Longrightarrow> concat (map f xs) = map g xs"
  by (induction xs) simp_all

lemma list_all_conj: "list_all P xs \<Longrightarrow> list_all Q xs \<Longrightarrow> list_all (\<lambda>x. P x \<and> Q x) xs"
  by (induction xs) simp_all

lemma list_all_mono: "list_all P xs \<Longrightarrow> (\<And>x. P x \<Longrightarrow> Q x) \<Longrightarrow> list_all Q xs"
  by (induction xs) simp_all

lemma padded_chunks:
  "list_all (\<lambda>ch. list_all isBit ch \<and> length ch = 5) (chunks 5 (padTo5 (encodeBits bytes)))"
proof -
  have "list_all isBit (padTo5 (encodeBits bytes))"
    by (rule padTo5_bits) (rule encodeBits_bits)
  then have "list_all (list_all isBit) (chunks 5 (padTo5 (encodeBits bytes)))"
    by (rule chunks_bits)
  moreover have "list_all (\<lambda>ch. length ch = 5) (chunks 5 (padTo5 (encodeBits bytes)))"
    by (rule chunks_uniform) (simp_all add: padTo5_length_mod)
  ultimately show ?thesis by (rule list_all_conj)
qed

lemma bytesToBase32_map:
  "bytesToBase32 bytes = map (\<lambda>ch. alphabet ! bitsValue ch) (chunks 5 (padTo5 (encodeBits bytes)))"
proof -
  have "list_all (\<lambda>ch. alphabetAt (parseInt2 ch) = [alphabet ! bitsValue ch])
          (chunks 5 (padTo5 (encodeBits bytes)))"
    by (rule list_all_mono [OF padded_chunks]) (simp add: alphabetAt_chunk)
  then show ?thesis
    by (simp add: bytesToBase32_chunks concat_map_singleton)
qed

lemma bytesToBase32_alphabet: "set (bytesToBase32 bytes) \<subseteq> set alphabet"
proof -
  have "list_all (\<lambda>ch. alphabet ! bitsValue ch \<in> set alphabet) (chunks 5 (padTo5 (encodeBits bytes)))"
    by (rule list_all_mono [OF padded_chunks]) (simp add: alphabetAt_chunk length_alphabet)
  then show ?thesis
    by (auto simp: bytesToBase32_map list_all_iff)
qed

lemma length_padTo5_encodeBits:
  "length (padTo5 (encodeBits bytes)) = 5 * ((8 * length bytes + 4) div 5)"
proof -
  define n where "n = 8 * length bytes"
  define r where "r = n mod 5"
  have r: "r < 5" by (simp add: r_def)
  have n: "n = 5 * (n div 5) + r" by (simp add: r_def)
  have "n + (5 - r) mod 5 = 5 * ((n + 4) div 5)"
  proof (cases "r = 0")
    case True
    with n have q: "n = 5 * (n div 5)" by simp
    have "(5 * (n div 5) + 4) div 5 = n div 5" by simp
    with q have "(n + 4) div 5 = n div 5" by simp
    with True n show ?thesis by simp
  next
    case False
    with r have m: "(5 - r) mod 5 = 5 - r" by simp
    have "(n + 4) div 5 = (5 * (n div 5) + (r + 4)) div 5" using n by simp
    also have "\<dots> = n div 5 + (r + 4) div 5" by simp
    also have "(r + 4) div 5 = 1" using r False by simp
    finally have "(n + 4) div 5 = n div 5 + 1" .
    with m n r show ?thesis by simp
  qed
  then show ?thesis
    by (simp add: padTo5_eq encodeBits_length n_def r_def)
qed

lemma length_bytesToBase32: "length (bytesToBase32 bytes) = (8 * length bytes + 4) div 5"
  by (simp add: bytesToBase32_map length_chunks padTo5_length_mod length_padTo5_encodeBits)

subsection \<open>The loops of the decoder\<close>

lemma decodeBits_foldl:
  "foldl (\<lambda>bits char.
            (let idx = indexOf alphabet char
             in if idx = - 1 then bits
                else bits @ padStart 5 (CHR ''0'') (toString2 (nat idx))))
     a s = a @ concat (map letterBits s)"
  by (induction s arbitrary: a) (simp_all add: Let_def letterBits_def)

lemma decodeBits_concat: "decodeBits s = concat (map letterBits s)"
  by (simp add: decodeBits_def decodeBits_foldl)

lemma letterBits_length: "length (letterBits c) = (if c \<in> set alphabet then 5 else 0)"
proof (cases "c \<in> set alphabet")
  case True
  then have "0 \<le> indexOf alphabet c" "indexOf alphabet c < 32"
    using indexOf_range [of c alphabet] by (simp_all add: length_alphabet)
  then have "nat (indexOf alphabet c) < 2 ^ 5" by simp
  then have "length (padStart 5 (CHR ''0'') (toString2 (nat (indexOf alphabet c)))) = 5"
    by (rule fixedWidth_length) simp
  moreover from True have "indexOf alphabet c \<noteq> - 1" by (simp add: indexOf_absent)
  ultimately show ?thesis using True by (simp add: letterBits_def)
next
  case False
  then show ?thesis by (simp add: letterBits_def indexOf_absent)
qed

lemma letterBits_bits: "list_all isBit (letterBits c)"
  by (simp add: letterBits_def fixedWidth_bits)

lemma length_decodeBits: "length (decodeBits s) = 5 * length (filter (\<lambda>c. c \<in> set alphabet) s)"
  by (induction s) (simp_all add: decodeBits_concat letterBits_length)

lemma decodeBits_bits: "list_all isBit (decodeBits s)"
  by (induction s) (simp_all add: decodeBits_concat letterBits_bits)

lemma letterBits_chunk:
  assumes "list_all isBit ch" "length ch = 5"
  shows "letterBits (alphabet ! bitsValue ch) = ch"
proof -
  have b: "bitsValue ch < 32" using assms by (rule alphabetAt_chunk)
  then have i: "indexOf alphabet (alphabet ! bitsValue ch) = int (bitsValue ch)"
    by (simp add: indexOf_nth distinct_alphabet length_alphabet)
  from assms have "ch \<noteq> []" by auto
  with assms(1) have "padStart (length ch) (CHR ''0'') (toString2 (bitsValue ch)) = ch"
    by (rule fixedWidth_inverse)
  with i assms(2) show ?thesis by (simp add: letterBits_def)
qed

lemma decodeBits_letters:
  "list_all (\<lambda>ch. list_all isBit ch \<and> length ch = 5) chs \<Longrightarrow>
   decodeBits (map (\<lambda>ch. alphabet ! bitsValue ch) chs) = concat chs"
  by (induction chs) (simp_all add: decodeBits_concat letterBits_chunk)

lemma decodeBits_bytesToBase32: "decodeBits (bytesToBase32 bytes) = padTo5 (encodeBits bytes)"
  by (simp add: bytesToBase32_map decodeBits_letters [OF padded_chunks] concat_chunks)

lemma decodeLoop_length: "length (decodeLoop bits i bytes) = length bytes"
  by (induction bits i bytes rule: decodeLoop.induct) (subst decodeLoop.simps, simp)

lemma decodeLoop_nth:
  "j < length bytes \<Longrightarrow>
   decodeLoop bits i bytes ! j =
     (if i \<le> j then toUint8 (parseInt2 (slice bits (j * 8) ((j + 1) * 8))) else bytes ! j)"
proof (induction bits i bytes rule: decodeLoop.induct)
  case (1 bits i bytes)
  show ?case
  proof (cases "i < length bytes")
    case True
    let ?bytes' = "bytes[i := toUint8 (parseInt2 (slice bits (i * 8) ((i + 1) * 8)))]"
    from 1(2) have "j < length ?bytes'" by simp
    with 1(1) True have "decodeLoop bits (i + 1) ?bytes' ! j =
      (if i + 1 \<le> j then toUint8 (parseInt2 (slice bits (j * 8) ((j + 1) * 8))) else ?bytes' ! j)"
      by simp
    moreover have "decodeLoop bits i bytes = decodeLoop bits (i + 1) ?bytes'"
      using True by (subst decodeLoop.simps) simp
    ultimately show ?thesis using True 1(2)
      by (cases "i = j") (auto simp: nth_list_update)
  next
    case False
    with 1(2) show ?thesis by (subst decodeLoop.simps) simp
  qed
qed

lemma base32ToBytes_map:
  "base32ToBytes s =
     map (\<lambda>j. toUint8 (parseInt2 (slice (decodeBits (stripWhitespace (toUpperCase s))) (j * 8) ((j + 1) * 8))))
       [0..<length (decodeBits (stripWhitespace (toUpperCase s))) div 8]"
  by (rule nth_equalityI) (simp_all add: base32ToBytes_def Let_def decodeLoop_length decodeLoop_nth)

lemma length_base32ToBytes:
  "length (base32ToBytes s) =
     (5 * length (filter (\<lambda>c. c \<in> set alphabet) (stripWhitespace (toUpperCase s)))) div 8"
  by (simp add: base32ToBytes_map length_decodeBits)

lemma take_drop_concat_uniform:
  "list_all (\<lambda>x. length x = m) xss \<Longrightarrow> j < length xss \<Longrightarrow> take m (drop (j * m) (concat xss)) = xss ! j"
proof (induction xss arbitrary: j)
  case Nil
  then show ?case by simp
next
  case (Cons x xss)
  show ?case
  proof (cases j)
    case 0
    with Cons.prems show ?thesis by simp
  next
    case (Suc k)
    with Cons.prems have "take m (drop (k * m) (concat xss)) = xss ! k" by (simp add: Cons.IH)
    with Cons.prems Suc show ?thesis by simp
  qed
qed

lemma slice_encodeBits:
  assumes "j < length bytes"
  shows "slice (padTo5 (encodeBits bytes)) (j * 8) ((j + 1) * 8) =
           padStart 8 (CHR ''0'') (toString2 (unat (bytes ! j)))"
proof -
  let ?f = "\<lambda>b :: u8. padStart 8 (CHR ''0'') (toString2 (unat b))"
  have u: "list_all (\<lambda>x. length x = 8) (map ?f bytes)"
    by (simp add: list_all_iff byteBits_length)
  from assms have "j * 8 + 8 \<le> length (encodeBits bytes)"
    by (simp add: encodeBits_length)
  then have "take 8 (drop (j * 8) (padTo5 (encodeBits bytes))) = take 8 (drop (j * 8) (encodeBits bytes))"
    by (simp add: padTo5_eq)
  also have "\<dots> = map ?f bytes ! j"
    unfolding encodeBits_concat using u assms by (intro take_drop_concat_uniform) simp_all
  finally show ?thesis using assms by (simp add: slice_def)
qed

lemma toUint8_byteBits: "toUint8 (parseInt2 (padStart 8 (CHR ''0'') (toString2 (unat (b :: u8))))) = b"
proof -
  have "length (padStart 8 (CHR ''0'') (toString2 (unat b))) = 8" by (rule byteBits_length)
  then have "padStart 8 (CHR ''0'') (toString2 (unat b)) \<noteq> []" by auto
  then have "parseInt2 (padStart 8 (CHR ''0'') (toString2 (unat b))) = Some (unat b)"
    by (simp add: parseInt2_bits fixedWidth_bits fixedWidth_value)
  then show ?thesis by (simp add: toUint8_def)
qed

lemma base32ToBytes_bytesToBase32: "base32ToBytes (bytesToBase32 bytes) = bytes"
proof -
  have a: "set (bytesToBase32 bytes) \<subseteq> set alphabet" by (rule bytesToBase32_alphabet)
  have bits: "decodeBits (stripWhitespace (toUpperCase (bytesToBase32 bytes))) = padTo5 (encodeBits bytes)"
    by (simp add: toUpperCase_alphabet [OF a] stripWhitespace_alphabet [OF a] decodeBits_bytesToBase32)
  have len: "length (padTo5 (encodeBits bytes)) div 8 = length bytes"
  proof -
    have "(5 - n mod 5) mod 5 < 8" for n :: nat
      using mod_less_divisor [of 5 "5 - n mod 5"] by linarith
    then show ?thesis
      by (simp add: padTo5_eq encodeBits_length)
  qed
  show ?thesis
  proof (rule nth_equalityI)
    show "length (base32ToBytes (bytesToBase32 bytes)) = length bytes"
      by (simp add: base32ToBytes_map bits len)
  next
    fix j assume "j < length (base32ToBytes (bytesToBase32 bytes))"
    then have j: "j < length bytes" by (simp add: base32ToBytes_map bits len)
    from j have "toUint8 (parseInt2 (slice (padTo5 (encodeBits bytes)) (j * 8) ((j + 1) * 8))) = bytes ! j"
      by (simp only: slice_encodeBits toUint8_byteBits)
    with j show "base32ToBytes (bytesToBase32 bytes) ! j = bytes ! j"
      by (simp add: base32ToBytes_map bits len)
  qed
qed

section \<open>Known values\<close>

subsection \<open>The hash against published vectors\<close>

text \<open>The digest of "abc" (FIPS 180) and the first HMAC-SHA-1 case of RFC 2202.\<close>

lemma sha1_abc:
  "sha1 [0x61, 0x62, 0x63] =
     [0xA9, 0x99, 0x3E, 0x36, 0x47, 0x06, 0x81, 0x6A, 0xBA, 0x3E,
      0x25, 0x71, 0x78, 0x50, 0xC2, 0x6C, 0x9C, 0xD0, 0xD8, 0x9D]"
  by code_simp

lemma hmacSha1_rfc2202_1:
  "hmacSha1 (replicate 20 0x0B) [0x48, 0x69, 0x20, 0x54, 0x68, 0x65, 0x72, 0x65] =
     [0xB6, 0x17, 0x31, 0x86, 0x55, 0x05, 0x72, 0x64, 0xE2, 0x8B,
      0xC0, 0xB6, 0xFB, 0x37, 0x8C, 0x8E, 0xF1, 0x46, 0xBE, 0x00]"
  by code_simp

subsection \<open>The counter and its buffer\<close>

lemma counter_div: "p \<noteq> 0 \<Longrightarrow> counter t p = Some (t div (1000 * p))"
proof -
  have "(of_int t :: rat) / 1000 / of_int p = of_int t / of_int (1000 * p)"
    by simp
  then have "\<lfloor>(of_int t :: rat) / 1000 / of_int p\<rfloor> = t div (1000 * p)"
    by (simp only: floor_divide_of_int_eq)
  then show "p \<noteq> 0 \<Longrightarrow> counter t p = Some (t div (1000 * p))"
    by (simp add: counter_def)
qed

lemma counterBuffer_bytes:
  "counterBuffer t p =
     [0, 0, 0, 0,
      ucast (drop_bit 24 (toUint32 (counter t p))), ucast (drop_bit 16 (toUint32 (counter t p))),
      ucast (drop_bit 8 (toUint32 (counter t p))), ucast (toUint32 (counter t p))]"
  by (simp add: counterBuffer_def setUint32_def Let_def eval_nat_numeral)

lemma replicate_unfold: "replicate n x = (if n = 0 then [] else x # replicate (n - 1) x)"
  by (cases n) simp_all

subsection \<open>The RFC 6238 vectors, step by step\<close>

definition rfcKey :: "u8 list" where
  "rfcKey = [0x31, 0x32, 0x33, 0x34, 0x35, 0x36, 0x37, 0x38, 0x39, 0x30, 0x31, 0x32, 0x33, 0x34, 0x35, 0x36, 0x37, 0x38, 0x39, 0x30]"

definition rfcSecret :: string where
  "rfcSecret = ''GEZDGNBVGY3TQOJQGEZDGNBVGY3TQOJQ''"

lemma bytesToBase32_rfcKey: "bytesToBase32 rfcKey = rfcSecret"
  unfolding rfcKey_def rfcSecret_def by code_simp

lemma counterBuffer_59: "counterBuffer 59000 30 = [0, 0, 0, 0, 0, 0, 0, 1]"
  by (simp add: counterBuffer_bytes toUint32_def counter_div)

lemma hmacSha1_59:
  "hmacSha1 [49, 50, 51, 52, 53, 54, 55, 56, 57, 48, 49, 50, 51, 52, 53, 54, 55, 56, 57, 48]
     [0, 0, 0, 0, 0, 0, 0, 1] =
     [117, 164, 138, 25, 212, 203, 225, 0, 100, 78, 138, 193, 57, 126, 234, 116, 122, 45, 51, 171]"
  by code_simp

lemma sign_59:
  "sign rfcKey [0, 0, 0, 0, 0, 0, 0, 1] =
     [117, 164, 138, 25, 212, 203, 225, 0, 100, 78, 138, 193, 57, 126, 234, 116, 122, 45, 51, 171]"
  by (simp add: sign_def rfcKey_def hmacSha1_59)

lemma dynamicTruncate_59:
  "dynamicTruncate [117, 164, 138, 25, 212, 203, 225, 0, 100, 78, 138, 193, 57, 126, 234, 116, 122, 45, 51, 171] = 1094287082"
  by (simp add: dynamicTruncate_def byteAnd_def)

lemma format_59: "padStart 6 (CHR ''0'') (numberToString (jsRem 1094287082 1000000)) = ''287082''"
  by (simp add: padStart_def numberToString_def jsRem_def toString10.simps digitChar_def replicate_unfold)

lemma counterBuffer_1111111109: "counterBuffer 1111111109000 30 = [0, 0, 0, 0, 2, 53, 35, 236]"
  by (simp add: counterBuffer_bytes toUint32_def counter_div)

lemma hmacSha1_1111111109:
  "hmacSha1 [49, 50, 51, 52, 53, 54, 55, 56, 57, 48, 49, 50, 51, 52, 53, 54, 55, 56, 57, 48]
     [0, 0, 0, 0, 2, 53, 35, 236] =
     [39, 140, 2, 229, 54, 16, 248, 76, 64, 189, 145, 53, 172, 212, 16, 16, 18, 65, 10, 20]"
  by code_simp

lemma sign_1111111109:
  "sign rfcKey [0, 0, 0, 0, 2, 53, 35, 236] =
     [39, 140, 2, 229, 54, 16, 248, 76, 64, 189, 145, 53, 172, 212, 16, 16, 18, 65, 10, 20]"
  by (simp add: sign_def rfcKey_def hmacSha1_1111111109)

lemma dynamicTruncate_1111111109:
  "dynamicTruncate [39, 140, 2, 229, 54, 16, 248, 76, 64, 189, 145, 53, 172, 212, 16, 16, 18, 65, 10, 20] = 907081804"
  by (simp add: dynamicTruncate_def byteAnd_def)

lemma format_1111111109: "padStart 6 (CHR ''0'') (numberToString (jsRem 907081804 1000000)) = ''081804''"
  by (simp add: padStart_def numberToString_def jsRem_def toString10.simps digitChar_def replicate_unfold)

lemma counterBuffer_1234567890: "counterBuffer 1234567890000 30 = [0, 0, 0, 0, 2, 115, 239, 7]"
  by (simp add: counterBuffer_bytes toUint32_def counter_div)

lemma hmacSha1_1234567890:
  "hmacSha1 [49, 50, 51, 52, 53, 54, 55, 56, 57, 48, 49, 50, 51, 52, 53, 54, 55, 56, 57, 48]
     [0, 0, 0, 0, 2, 115, 239, 7] =
     [144, 124, 209, 169, 17, 101, 100, 236, 185, 213, 209, 120, 3, 37, 242, 70, 23, 63, 231, 3]"
  by code_simp

lemma sign_1234567890:
  "sign rfcKey [0, 0, 0, 0, 2, 115, 239, 7] =
     [144, 124, 209, 169, 17, 101, 100, 236, 185, 213, 209, 120, 3, 37, 242, 70, 23, 63, 231, 3]"
  by (simp add: sign_def rfcKey_def hmacSha1_1234567890)

lemma dynamicTruncate_1234567890:
  "dynamicTruncate [144, 124, 209, 169, 17, 101, 100, 236, 185, 213, 209, 120, 3, 37, 242, 70, 23, 63, 231, 3] = 689005924"
  by (simp add: dynamicTruncate_def byteAnd_def)

lemma format_1234567890: "padStart 6 (CHR ''0'') (numberToString (jsRem 689005924 1000000)) = ''005924''"
  by (simp add: padStart_def numberToString_def jsRem_def toString10.simps digitChar_def replicate_unfold)

lemma counterBuffer_2000000000: "counterBuffer 2000000000000 30 = [0, 0, 0, 0, 3, 249, 64, 170]"
  by (simp add: counterBuffer_bytes toUint32_def counter_div)

lemma hmacSha1_2000000000:
  "hmacSha1 [49, 50, 51, 52, 53, 54, 55, 56, 57, 48, 49, 50, 51, 52, 53, 54, 55, 56, 57, 48]
     [0, 0, 0, 0, 3, 249, 64, 170] =
     [37, 163, 38, 211, 31, 195, 102, 36, 76, 173, 5, 73, 118, 2, 12, 123, 86, 177, 61, 95]"
  by code_simp

lemma sign_2000000000:
  "sign rfcKey [0, 0, 0, 0, 3, 249, 64, 170] =
     [37, 163, 38, 211, 31, 195, 102, 36, 76, 173, 5, 73, 118, 2, 12, 123, 86, 177, 61, 95]"
  by (simp add: sign_def rfcKey_def hmacSha1_2000000000)

lemma dynamicTruncate_2000000000:
  "dynamicTruncate [37, 163, 38, 211, 31, 195, 102, 36, 76, 173, 5, 73, 118, 2, 12, 123, 86, 177, 61, 95] = 2069279037"
  by (simp add: dynamicTruncate_def byteAnd_def)

lemma format_2000000000: "padStart 6 (CHR ''0'') (numberToString (jsRem 2069279037 1000000)) = ''279037''"
  by (simp add: padStart_def numberToString_def jsRem_def toString10.simps digitChar_def replicate_unfold)

lemma base32ToBytes_rfcSecret: "base32ToBytes rfcSecret = rfcKey"
  using base32ToBytes_bytesToBase32 [of rfcKey] by (simp add: bytesToBase32_rfcKey)

section \<open>The claims\<close>

text \<open>
  C2. Round trip: for every byte sequence \<open>b\<close>, decoding the Base32 encoding of \<open>b\<close>
  gives \<open>b\<close> back, with no byte added by the padding bits.
\<close>

theorem base32_round_trip: "base32ToBytes (bytesToBase32 b) = b"
  by (rule base32ToBytes_bytesToBase32)

theorem base32_round_trip_witness:
  "base32ToBytes (bytesToBase32 [72, 101, 108, 108, 111]) = [72, 101, 108, 108, 111]"
  using base32_round_trip [of "[72, 101, 108, 108, 111]"] by simp

text \<open>
  C3. Known vector: the ASCII bytes of "12345678901234567890" encode to
  GEZDGNBVGY3TQOJQGEZDGNBVGY3TQOJQ.
\<close>

theorem bytesToBase32_known_vector:
  "bytesToBase32 (map (\<lambda>c. of_nat (of_char c)) ''12345678901234567890'') =
     ''GEZDGNBVGY3TQOJQGEZDGNBVGY3TQOJQ''"
proof -
  have "map (\<lambda>c. of_nat (of_char c)) ''12345678901234567890'' = rfcKey"
    by (simp add: rfcKey_def)
  then show ?thesis
    using bytesToBase32_rfcKey by (simp add: rfcSecret_def)
qed

end
